theory Spec2Isabelle
  imports
    Complex_Main
    "HOL-Library.Word"
    "HOL-Library.List_Lexorder"
    "HOL-Library.Multiset"
    "HOL-Library.Log_Nat"
begin

section \<open>Data model of \<^verbatim>\<open>verifier.py\<close>\<close>

text \<open>
  A Python \<^verbatim>\<open>str\<close> is a sequence of Unicode code points, a \<^verbatim>\<open>bytes\<close> value a
  sequence of octets. \<^verbatim>\<open>len\<close>, slicing, comparison and \<^verbatim>\<open>sorted\<close> on \<^verbatim>\<open>str\<close> all
  work on code points, so a \<^verbatim>\<open>str\<close> is a list of naturals here (values from
  \<open>0x110000\<close> on are no characters of Python and are refused by the encoder below).
\<close>

type_synonym byte = "8 word"
type_synonym pybytes = "byte list"
type_synonym pystr = "nat list"

text \<open>An ASCII literal of the source, as a \<^verbatim>\<open>str\<close>.\<close>

definition str :: "string \<Rightarrow> pystr" where
  "str s = map of_char s"

text \<open>
  The exceptions the functions of the file can raise: \<^verbatim>\<open>ValueError\<close> with its message
  (\<^verbatim>\<open>"No leaves"\<close> by \<^verbatim>\<open>build_merkle_root\<close>, the non-hexadecimal complaint by
  \<^verbatim>\<open>bytes.fromhex\<close>), \<^verbatim>\<open>UnicodeEncodeError\<close> by \<^verbatim>\<open>str.encode\<close>, \<^verbatim>\<open>IndexError\<close> by
  \<^verbatim>\<open>current[0]\<close>, and whatever \<^verbatim>\<open>open\<close>/\<^verbatim>\<open>read\<close> raise.
\<close>

datatype error =
    ValueError string
  | UnicodeEncodeError
  | IndexError
  | OSError

section \<open>Library functions the file calls\<close>

subsection \<open>\<^verbatim>\<open>HexBytes.hex\<close> and \<^verbatim>\<open>bytes.fromhex\<close>\<close>

definition hexdigit :: "nat \<Rightarrow> nat" where
  "hexdigit n = (if n < 10 then 48 + n else 87 + n)"

definition hex_byte :: "byte \<Rightarrow> pystr" where
  "hex_byte b = [hexdigit (unat b div 16), hexdigit (unat b mod 16)]"

definition hex :: "pybytes \<Rightarrow> pystr" where
  "hex bs = concat (map hex_byte bs)"

text \<open>
  \<^verbatim>\<open>bytes.fromhex\<close> (CPython 3.7 and later): runs of ASCII whitespace are skipped between
  bytes, every byte is two hexadecimal digits of either case, anything else raises
  \<^verbatim>\<open>ValueError\<close>.
\<close>

definition hexval :: "nat \<Rightarrow> nat option" where
  "hexval c =
     (if 48 \<le> c \<and> c \<le> 57 then Some (c - 48)
      else if 97 \<le> c \<and> c \<le> 102 then Some (c - 87)
      else if 65 \<le> c \<and> c \<le> 70 then Some (c - 55)
      else None)"

definition ascii_isspace :: "nat \<Rightarrow> bool" where
  "ascii_isspace c = (c = 32 \<or> (9 \<le> c \<and> c \<le> 13))"

definition fromhex_error :: error where
  "fromhex_error = ValueError ''non-hexadecimal number found in fromhex() arg''"

fun fromhex :: "pystr \<Rightarrow> error + pybytes" where
  "fromhex [] = Inr []"
| "fromhex [c] = (if ascii_isspace c then Inr [] else Inl fromhex_error)"
| "fromhex (c # d # cs) =
     (if ascii_isspace c then fromhex (d # cs)
      else case hexval c of
        None \<Rightarrow> Inl fromhex_error
      | Some hi \<Rightarrow>
         (case hexval d of
            None \<Rightarrow> Inl fromhex_error
          | Some lo \<Rightarrow>
             (case fromhex cs of
                Inl e \<Rightarrow> Inl e
              | Inr bs \<Rightarrow> Inr (of_nat (16 * hi + lo) # bs))))"

section \<open>The functions of \<^verbatim>\<open>verifier.py\<close>\<close>

subsection \<open>\<^verbatim>\<open>keccak256\<close>\<close>

text \<open>
  \<^verbatim>\<open>Web3.keccak\<close> is the Keccak-256 primitive of an external package. It is a parameter
  \<open>K\<close> of every function that hashes: a function from bytes to bytes. \<^verbatim>\<open>.hex()\<close> of the
  \<^verbatim>\<open>HexBytes\<close> it returns renders the digest as lowercase hex after \<^verbatim>\<open>0x\<close> (so does
  \<^verbatim>\<open>hexbytes\<close> before its version 1.0), which is what the \<^verbatim>\<open>[2:]\<close> of
  \<^verbatim>\<open>build_merkle_root\<close> strips and what the expected root of the script looks like.
\<close>

type_synonym hasher = "pybytes \<Rightarrow> pybytes"

definition keccak256 :: "hasher \<Rightarrow> pybytes \<Rightarrow> pystr" where
  "keccak256 K data = str ''0x'' @ hex (K data)"

subsection \<open>\<^verbatim>\<open>build_merkle_root\<close>\<close>

text \<open>
  The body of the \<^verbatim>\<open>for i in range(0, len(current), 2)\<close> loop, on the elements from
  index \<open>i\<close> on: two elements when \<open>i + 1 < len(current)\<close>, the last one alone otherwise.
  \<^verbatim>\<open>bytes.fromhex(current[i][2:])\<close> raises on a string that is no hex text, and the
  exception leaves the function.
\<close>

fun next_level :: "hasher \<Rightarrow> pystr list \<Rightarrow> error + pystr list" where
  "next_level K [] = Inr []"
| "next_level K [l] =
     (case fromhex (drop 2 l) of
        Inl e \<Rightarrow> Inl e
      | Inr left \<Rightarrow> Inr [keccak256 K left])"
| "next_level K (l # r # rest) =
     (case fromhex (drop 2 l) of
        Inl e \<Rightarrow> Inl e
      | Inr left \<Rightarrow>
         (case fromhex (drop 2 r) of
            Inl e \<Rightarrow> Inl e
          | Inr right \<Rightarrow>
             (case next_level K rest of
                Inl e \<Rightarrow> Inl e
              | Inr nl \<Rightarrow> Inr (keccak256 K (left @ right) # nl))))"

text \<open>
  The \<^verbatim>\<open>while len(current) > 1\<close> loop. Its state is \<^verbatim>\<open>current\<close>; the second component
  counts the completed rounds (the source keeps no such counter: it is there to state
  how many rounds the loop makes, and nothing reads it).
\<close>

function while_loop :: "hasher \<Rightarrow> pystr list \<Rightarrow> nat \<Rightarrow> error + (pystr list \<times> nat)" where
  "while_loop K current rounds =
     (if length current > 1 then
        (case next_level K current of
           Inl e \<Rightarrow> Inl e
         | Inr nl \<Rightarrow> while_loop K nl (Suc rounds))
      else Inr (current, rounds))"
  by pat_completeness auto
termination
proof (relation "measure (\<lambda>(K, current, rounds). length current)")
  show "wf (measure (\<lambda>(K, current, rounds). length current))"
    by simp
next
  fix K :: hasher and current :: "pystr list" and rounds :: nat and nl
  assume more: "1 < length current" and level: "next_level K current = Inr nl"
  have "next_level K xs = Inr ys \<Longrightarrow> length ys = (length xs + 1) div 2" for xs ys
    by (induction K xs arbitrary: ys rule: next_level.induct) (auto split: sum.splits)
  from this [OF level] more
  show "((K, nl, Suc rounds), (K, current, rounds))
          \<in> measure (\<lambda>(K, current, rounds). length current)"
    by simp
qed

declare while_loop.simps [simp del]

definition build_merkle_root :: "hasher \<Rightarrow> pystr list \<Rightarrow> error + pystr" where
  "build_merkle_root K leaves =
     (if leaves = [] then Inl (ValueError ''No leaves'')
      else case while_loop K leaves 0 of
        Inl e \<Rightarrow> Inl e
      | Inr (current, rounds) \<Rightarrow>
         (case current of [] \<Rightarrow> Inl IndexError | r # _ \<Rightarrow> Inr r))"

subsection \<open>\<^verbatim>\<open>build_merkle_leaves\<close>\<close>

text \<open>
  \<^verbatim>\<open>doc.encode('utf-8')\<close>: one to four bytes for a code point; a surrogate
  (\<open>0xD800\<close> to \<open>0xDFFF\<close>) raises \<^verbatim>\<open>UnicodeEncodeError\<close>.
\<close>

definition utf8_char :: "nat \<Rightarrow> error + pybytes" where
  "utf8_char c =
     (if c < 0x80 then Inr [of_nat c]
      else if c < 0x800 then Inr [of_nat (0xC0 + c div 64), of_nat (0x80 + c mod 64)]
      else if 0xD800 \<le> c \<and> c < 0xE000 then Inl UnicodeEncodeError
      else if c < 0x10000 then
        Inr [of_nat (0xE0 + c div 4096), of_nat (0x80 + c div 64 mod 64),
             of_nat (0x80 + c mod 64)]
      else if c < 0x110000 then
        Inr [of_nat (0xF0 + c div 262144), of_nat (0x80 + c div 4096 mod 64),
             of_nat (0x80 + c div 64 mod 64), of_nat (0x80 + c mod 64)]
      else Inl UnicodeEncodeError)"

fun encode_utf8 :: "pystr \<Rightarrow> error + pybytes" where
  "encode_utf8 [] = Inr []"
| "encode_utf8 (c # cs) =
     (case utf8_char c of
        Inl e \<Rightarrow> Inl e
      | Inr bs \<Rightarrow>
         (case encode_utf8 cs of
            Inl e \<Rightarrow> Inl e
          | Inr rest \<Rightarrow> Inr (bs @ rest)))"

text \<open>
  The list comprehension \<^verbatim>\<open>[keccak256(doc.encode('utf-8')) for doc in ...]\<close>: one
  leaf for each document, in the order given; the first document that cannot be
  encoded raises.
\<close>

fun hash_docs :: "hasher \<Rightarrow> pystr list \<Rightarrow> error + pystr list" where
  "hash_docs K [] = Inr []"
| "hash_docs K (doc # docs) =
     (case encode_utf8 doc of
        Inl e \<Rightarrow> Inl e
      | Inr data \<Rightarrow>
         (case hash_docs K docs of
            Inl e \<Rightarrow> Inl e
          | Inr leaves \<Rightarrow> Inr (keccak256 K data # leaves)))"

text \<open>
  \<^verbatim>\<open>sorted(docs)\<close> compares strings code point by code point, a proper prefix first:
  the lexicographic order of lists of naturals. The order is total and equal strings
  are indistinguishable, so the stable sort of Python and \<^const>\<open>sort\<close> agree.
\<close>

definition build_merkle_leaves :: "hasher \<Rightarrow> pystr list \<Rightarrow> error + pystr list" where
  "build_merkle_leaves K docs = hash_docs K (sort docs)"

subsection \<open>\<^verbatim>\<open>str.split\<close> and \<^verbatim>\<open>str.strip\<close>\<close>

text \<open>\<open>startswith sep s\<close> is what follows \<open>sep\<close> in \<open>s\<close> when \<open>s\<close> starts with \<open>sep\<close>.\<close>

fun startswith :: "pystr \<Rightarrow> pystr \<Rightarrow> pystr option" where
  "startswith [] s = Some s"
| "startswith (p # ps) [] = None"
| "startswith (p # ps) (c # cs) = (if p = c then startswith ps cs else None)"

text \<open>
  \<^verbatim>\<open>s.split(sep)\<close> scans left to right for occurrences of \<open>sep\<close> that do not overlap;
  \<open>piece\<close> is the text since the last occurrence. An empty separator raises
  \<^verbatim>\<open>ValueError\<close>.
\<close>

function split_from :: "pystr \<Rightarrow> pystr \<Rightarrow> pystr \<Rightarrow> pystr list" where
  "split_from sep piece [] = [piece]"
| "split_from sep piece (c # cs) =
     (case (if sep = [] then None else startswith sep (c # cs)) of
        Some rest \<Rightarrow> piece # split_from sep [] rest
      | None \<Rightarrow> split_from sep (piece @ [c]) cs)"
  by pat_completeness auto
termination
proof (relation "measure (\<lambda>(sep, piece, s). length s)")
  show "wf (measure (\<lambda>(sep, piece, s). length s))"
    by simp
next
  fix sep piece :: pystr and c :: nat and cs rest :: pystr
  assume found: "(if sep = [] then None else startswith sep (c # cs)) = Some rest"
  have "startswith p s = Some r \<Longrightarrow> length s = length p + length r" for p s r
    by (induction p s rule: startswith.induct) (auto split: if_splits)
  from this [of sep "c # cs" rest] found
  show "((sep, [], rest), (sep, piece, c # cs)) \<in> measure (\<lambda>(sep, piece, s). length s)"
    by (cases sep) auto
next
  fix sep piece :: pystr and c :: nat and cs :: pystr
  show "((sep, piece @ [c], cs), (sep, piece, c # cs))
          \<in> measure (\<lambda>(sep, piece, s). length s)"
    by simp
qed

definition split :: "pystr \<Rightarrow> pystr \<Rightarrow> error + pystr list" where
  "split s sep =
     (if sep = [] then Inl (ValueError ''empty separator'') else Inr (split_from sep [] s))"

text \<open>
  \<^verbatim>\<open>s.strip()\<close> removes the whitespace of \<^verbatim>\<open>str.isspace\<close> at both ends.
\<close>

definition isspace :: "nat \<Rightarrow> bool" where
  "isspace c =
     ((9 \<le> c \<and> c \<le> 13) \<or> (28 \<le> c \<and> c \<le> 32) \<or> c = 0x85 \<or> c = 0xA0 \<or> c = 0x1680
      \<or> (0x2000 \<le> c \<and> c \<le> 0x200A) \<or> c = 0x2028 \<or> c = 0x2029 \<or> c = 0x202F
      \<or> c = 0x205F \<or> c = 0x3000)"

definition strip :: "pystr \<Rightarrow> pystr" where
  "strip s = rev (dropWhile isspace (rev (dropWhile isspace s)))"

subsection \<open>\<^verbatim>\<open>verify_against_txs\<close>\<close>

text \<open>
  \<^verbatim>\<open>open(codex_path).read()\<close> is the one access to the outside: the file system is a
  parameter \<open>fs\<close> that gives, for a path, the text read or the exception raised.
  What \<^verbatim>\<open>print\<close> writes is returned as a list of lines, each a constructor holding the
  values its f-string interpolates.
\<close>

type_synonym files = "pystr \<Rightarrow> error + pystr"

datatype printed =
    Computed_Merkle_Root pystr
  | ROOT_MISMATCH
  | Tx_Would_verify pystr pystr
  | Lattice_Rule pystr pystr

text \<open>\<^verbatim>\<open>[law.strip() for law in content.split('LAW ')[1:] if law.strip()]\<close>\<close>

definition laws_of :: "pystr \<Rightarrow> error + pystr list" where
  "laws_of content =
     (case split content (str ''LAW '') of
        Inl e \<Rightarrow> Inl e
      | Inr parts \<Rightarrow> Inr (map strip (filter (\<lambda>law. strip law \<noteq> []) (drop 1 parts))))"

text \<open>
  The last five lines of the function, the ``lattice rule'', with the local constant
  \<^verbatim>\<open>epoch\<close> as an argument: the decision and the line printed.
\<close>

definition lattice_rule :: "pystr \<Rightarrow> pystr \<Rightarrow> pystr \<Rightarrow> printed list \<times> bool" where
  "lattice_rule epoch computed_root expected_root =
     (if computed_root = expected_root then ([Lattice_Rule expected_root epoch], True)
      else ([], False))"

text \<open>
  The function for any value of \<^verbatim>\<open>epoch\<close>; the source binds it to one literal, which
  \<open>verify_against_txs\<close> below passes.
\<close>

definition verify_with_epoch ::
  "hasher \<Rightarrow> files \<Rightarrow> pystr \<Rightarrow> pystr \<Rightarrow> pystr \<Rightarrow> pystr list \<Rightarrow> printed list \<times> (error + bool)"
where
  "verify_with_epoch K fs epoch codex_path expected_root tx_hashes =
     (case fs codex_path of
        Inl e \<Rightarrow> ([], Inl e)
      | Inr content \<Rightarrow>
     (case laws_of content of
        Inl e \<Rightarrow> ([], Inl e)
      | Inr laws \<Rightarrow>
     (case build_merkle_leaves K laws of
        Inl e \<Rightarrow> ([], Inl e)
      | Inr leaves \<Rightarrow>
     (case build_merkle_root K leaves of
        Inl e \<Rightarrow> ([], Inl e)
      | Inr computed_root \<Rightarrow>
         if computed_root \<noteq> expected_root then
           ([Computed_Merkle_Root computed_root, ROOT_MISMATCH], Inr False)
         else
           (case lattice_rule epoch computed_root expected_root of
              (said, attested) \<Rightarrow>
                (Computed_Merkle_Root computed_root
                   # map (\<lambda>tx. Tx_Would_verify tx expected_root) tx_hashes @ said,
                 Inr attested))))))"

definition verify_against_txs ::
  "hasher \<Rightarrow> files \<Rightarrow> pystr \<Rightarrow> pystr \<Rightarrow> pystr list \<Rightarrow> printed list \<times> (error + bool)"
where
  "verify_against_txs K fs codex_path expected_root tx_hashes =
     verify_with_epoch K fs (str ''EPOCH_2025-10-15-154540'') codex_path expected_root tx_hashes"

text \<open>
  The value the function binds to \<^verbatim>\<open>computed_root\<close>, or the exception raised before
  it is bound: the first four steps of \<open>verify_with_epoch\<close>.
\<close>

definition computed_root_of :: "hasher \<Rightarrow> files \<Rightarrow> pystr \<Rightarrow> error + pystr" where
  "computed_root_of K fs codex_path =
     (case fs codex_path of
        Inl e \<Rightarrow> Inl e
      | Inr content \<Rightarrow>
     (case laws_of content of
        Inl e \<Rightarrow> Inl e
      | Inr laws \<Rightarrow>
     (case build_merkle_leaves K laws of
        Inl e \<Rightarrow> Inl e
      | Inr leaves \<Rightarrow> build_merkle_root K leaves)))"

subsection \<open>The inputs of the hasher\<close>

text \<open>
  What \<^verbatim>\<open>build_merkle_root\<close> hashes, on bytes. A level of the tree is given by the
  inputs whose digests are its elements: the lowest by the encoded documents.
  \<open>level_inputs\<close> takes the digests of a level to the inputs of the next one, as the
  \<^verbatim>\<open>for\<close> loop forms them (\<^verbatim>\<open>left + right\<close>, or \<^verbatim>\<open>left\<close> for the last of an odd level);
  \<open>levels K X\<close> lists the levels from \<open>X\<close> up to the one with a single input, whose
  digest is the root. \<open>hashed_inputs\<close> are all inputs hashed along the way,
  \<open>node_inputs\<close> those above the lowest level.
\<close>

fun level_inputs :: "pybytes list \<Rightarrow> pybytes list" where
  "level_inputs [] = []"
| "level_inputs [a] = [a]"
| "level_inputs (a # b # rest) = (a @ b) # level_inputs rest"

function levels :: "hasher \<Rightarrow> pybytes list \<Rightarrow> pybytes list list" where
  "levels K X = (if 1 < length X then X # levels K (level_inputs (map K X)) else [X])"
  by pat_completeness auto
termination
proof (relation "measure (\<lambda>(K, X). length X)")
  show "wf (measure (\<lambda>(K, X). length X))"
    by simp
next
  fix K :: hasher and X :: "pybytes list"
  assume more: "1 < length X"
  have "length (level_inputs ds) = (length ds + 1) div 2" for ds
    by (induction ds rule: level_inputs.induct) simp_all
  from this [of "map K X"] more
  show "((K, level_inputs (map K X)), (K, X)) \<in> measure (\<lambda>(K, X). length X)"
    by simp
qed

declare levels.simps [simp del]

definition hashed_inputs :: "hasher \<Rightarrow> pybytes list \<Rightarrow> pybytes list" where
  "hashed_inputs K X = concat (levels K X)"

definition node_inputs :: "hasher \<Rightarrow> pybytes list \<Rightarrow> pybytes list" where
  "node_inputs K X = concat (tl (levels K X))"

text \<open>
  No collision among the inputs hashed for two sequences of encoded documents \<open>X\<close> and
  \<open>Y\<close>: the hasher is injective on them, its digests there have one length \<open>N\<close>, and
  no encoded document of one sequence is the input of an inner node of the other.
\<close>

definition collision_free :: "hasher \<Rightarrow> nat \<Rightarrow> pybytes list \<Rightarrow> pybytes list \<Rightarrow> bool" where
  "collision_free K N X Y \<longleftrightarrow>
     0 < N \<and>
     inj_on K (set (hashed_inputs K X) \<union> set (hashed_inputs K Y)) \<and>
     (\<forall>x \<in> set (hashed_inputs K X) \<union> set (hashed_inputs K Y). length (K x) = N) \<and>
     set X \<inter> set (node_inputs K Y) = {} \<and>
     set Y \<inter> set (node_inputs K X) = {}"

subsection \<open>Notions used in the proofs\<close>

text \<open>
  \<open>differs_below xs ys\<close>: at the first position where the two lists differ, both have
  an element, and that of \<open>xs\<close> is the smaller. \<open>utf8_nats c\<close> are the byte values of
  the encoding of a code point \<open>c\<close>, as naturals.
\<close>

fun differs_below :: "'a::linorder list \<Rightarrow> 'a list \<Rightarrow> bool" where
  "differs_below (x # xs) (y # ys) = (x < y \<or> (x = y \<and> differs_below xs ys))"
| "differs_below xs ys = False"

definition utf8_nats :: "nat \<Rightarrow> nat list" where
  "utf8_nats c =
     (if c < 0x80 then [c]
      else if c < 0x800 then [0xC0 + c div 64, 0x80 + c mod 64]
      else if c < 0x10000 then
        [0xE0 + c div 64 div 64, 0x80 + c div 64 mod 64, 0x80 + c mod 64]
      else
        [0xF0 + c div 64 div 64 div 64, 0x80 + c div 64 div 64 mod 64,
         0x80 + c div 64 mod 64, 0x80 + c mod 64])"

subsection \<open>Well-formed leaves\<close>

text \<open>
  A leaf that \<^verbatim>\<open>build_merkle_root\<close> can decode: what follows its first two characters
  is hex text for \<^verbatim>\<open>bytes.fromhex\<close>. Every string \<^verbatim>\<open>keccak256\<close> returns is one.
\<close>

definition hex_leaf :: "pystr \<Rightarrow> bool" where
  "hex_leaf l = (case fromhex (drop 2 l) of Inl e \<Rightarrow> False | Inr bs \<Rightarrow> True)"

section \<open>A sample instance\<close>

text \<open>
  Closed instances of the theorems need some hasher and some file system. The sample
  hasher returns 32 bytes, the last one the sum of the input; the sample file system
  holds one codex.
\<close>

definition sample_hasher :: hasher where
  "sample_hasher data = replicate 31 0xAB @ [sum_list data]"

definition sample_files :: files where
  "sample_files path =
     (if path = str ''codex.txt'' then Inr (str ''intro LAW 1: x LAW 2: y'') else Inl OSError)"

section \<open>Evaluation of closed instances\<close>

lemma sample_hasher_eq:
  "sample_hasher data =
     [0xAB, 0xAB, 0xAB, 0xAB, 0xAB, 0xAB, 0xAB, 0xAB, 0xAB, 0xAB, 0xAB, 0xAB, 0xAB, 0xAB,
      0xAB, 0xAB, 0xAB, 0xAB, 0xAB, 0xAB, 0xAB, 0xAB, 0xAB, 0xAB, 0xAB, 0xAB, 0xAB, 0xAB,
      0xAB, 0xAB, 0xAB, sum_list data]"
  by (simp add: sample_hasher_def numeral_eq_Suc)

lemmas ev =
  str_def strip_def isspace_def split_def laws_of_def hexdigit_def hex_byte_def hex_def
  hexval_def ascii_isspace_def keccak256_def utf8_char_def build_merkle_leaves_def
  build_merkle_root_def while_loop.simps sample_hasher_eq sample_files_def
  verify_against_txs_def verify_with_epoch_def lattice_rule_def fromhex_error_def
  hex_leaf_def computed_root_of_def collision_free_def hashed_inputs_def node_inputs_def
  levels.simps

section \<open>Hex text and raw bytes\<close>

text \<open>
  Decoding undoes rendering: the bytes \<^verbatim>\<open>build_merkle_root\<close> recovers from a digest
  string are the digest.
\<close>

lemma hexval_hexdigit: "n < 16 \<Longrightarrow> hexval (hexdigit n) = Some n"
  by (simp add: hexval_def hexdigit_def)

lemma hexdigit_not_space: "n < 16 \<Longrightarrow> \<not> ascii_isspace (hexdigit n)"
  by (simp add: ascii_isspace_def hexdigit_def)

lemma unat_byte_div16: "unat (b :: byte) div 16 < 16"
  using unsigned_less [of b, where ?'a = nat] by simp

lemma fromhex_hex: "fromhex (hex bs) = Inr bs"
proof (induction bs)
  case Nil
  show ?case by (simp add: hex_def)
next
  case (Cons b bs)
  have unfold_hex: "hex (b # bs) = hexdigit (unat b div 16) # hexdigit (unat b mod 16) # hex bs"
    by (simp add: hex_def hex_byte_def)
  have recombine: "(of_nat (16 * (unat b div 16) + unat b mod 16) :: byte) = b"
    by simp
  show ?case
    unfolding unfold_hex
    using Cons.IH recombine
    by (simp add: hexval_hexdigit hexdigit_not_space unat_byte_div16 del: of_nat_add of_nat_mult)
qed


lemma drop_keccak256: "drop 2 (keccak256 K d) = hex (K d)"
  by (simp add: keccak256_def str_def)

lemma fromhex_keccak256: "fromhex (drop 2 (keccak256 K d)) = Inr (K d)"
  by (simp add: drop_keccak256 fromhex_hex)



section \<open>One level of the reduction\<close>

lemma next_level_length:
  "next_level K current = Inr nl \<Longrightarrow> length nl = (length current + 1) div 2"
  by (induction K current arbitrary: nl rule: next_level.induct)
     (auto split: sum.splits)




lemma next_level_nth:
  "next_level K current = Inr nl \<Longrightarrow> 2 * i + 1 < length current \<Longrightarrow>
   \<exists>lb rb. fromhex (drop 2 (current ! (2 * i))) = Inr lb \<and>
           fromhex (drop 2 (current ! (2 * i + 1))) = Inr rb \<and>
           nl ! i = keccak256 K (lb @ rb)"
proof (induction K current arbitrary: nl i rule: next_level.induct)
  case (1 K)
  then show ?case by simp
next
  case (2 K l)
  then show ?case by simp
next
  case (3 K l r rest)
  from "3.prems"(1) obtain lb rb nl'
    where lb: "fromhex (drop 2 l) = Inr lb" and rb: "fromhex (drop 2 r) = Inr rb"
      and rest: "next_level K rest = Inr nl'" and nl: "nl = keccak256 K (lb @ rb) # nl'"
    by (auto split: sum.splits)
  show ?case
  proof (cases i)
    case 0
    with lb rb nl show ?thesis by simp
  next
    case (Suc j)
    with "3.prems"(2) have "2 * j + 1 < length rest" by simp
    from "3.IH" [OF lb rb rest this] Suc nl show ?thesis by simp
  qed
qed

lemma two_leaves_root:
  "fromhex (drop 2 l1) = Inr lb \<Longrightarrow> fromhex (drop 2 l2) = Inr rb \<Longrightarrow>
   build_merkle_root K [l1, l2] = Inr (keccak256 K (lb @ rb))"
  by (simp add: build_merkle_root_def while_loop.simps)

lemma next_level_last_odd:
  "next_level K current = Inr nl \<Longrightarrow> odd (length current) \<Longrightarrow>
   \<exists>b. fromhex (drop 2 (last current)) = Inr b \<and> last nl = keccak256 K b"
proof (induction K current arbitrary: nl rule: next_level.induct)
  case (1 K)
  then show ?case by simp
next
  case (2 K l)
  then show ?case by (auto split: sum.splits)
next
  case (3 K l r rest)
  from "3.prems"(1) obtain lb rb nl'
    where lb: "fromhex (drop 2 l) = Inr lb" and rb: "fromhex (drop 2 r) = Inr rb"
      and rest: "next_level K rest = Inr nl'" and nl: "nl = keccak256 K (lb @ rb) # nl'"
    by (auto split: sum.splits)
  from "3.prems"(2) have odd_rest: "odd (length rest)" by simp
  then have "rest \<noteq> []" by auto
  moreover from next_level_length [OF rest] odd_rest have "nl' \<noteq> []" by auto
  ultimately show ?case
    using "3.IH" [OF lb rb rest odd_rest] nl by simp
qed

lemma three_leaves_root:
  "fromhex (drop 2 a) = Inr ab \<Longrightarrow> fromhex (drop 2 b) = Inr bb \<Longrightarrow>
   fromhex (drop 2 c) = Inr cb \<Longrightarrow>
   build_merkle_root K [a, b, c] = Inr (keccak256 K (K (ab @ bb) @ K cb))"
  by (simp add: build_merkle_root_def while_loop.simps fromhex_keccak256)

section \<open>The loop\<close>





section \<open>Leaves\<close>

lemma sort_mset_cong: "mset xs = mset ys \<Longrightarrow> sort xs = sort (ys :: 'a :: linorder list)"
  by (rule properties_for_sort) simp_all

lemma hash_docs_length: "hash_docs K docs = Inr leaves \<Longrightarrow> length leaves = length docs"
  by (induction docs arbitrary: leaves) (auto split: sum.splits)

lemma hash_docs_count:
  "hash_docs K docs = Inr leaves \<Longrightarrow> encode_utf8 d = Inr data \<Longrightarrow>
   count_list docs d \<le> count_list leaves (keccak256 K data)"
  by (induction docs arbitrary: leaves) (auto split: sum.splits)

lemma hash_docs_Inr:
  "hash_docs K docs = Inr leaves \<Longrightarrow>
   \<exists>bs. map encode_utf8 docs = map Inr bs \<and> leaves = map (keccak256 K) bs"
proof (induction docs arbitrary: leaves)
  case Nil
  then show ?case by simp
next
  case (Cons d docs)
  from Cons.prems obtain data rest
    where d: "encode_utf8 d = Inr data" and rest: "hash_docs K docs = Inr rest"
      and leaves: "leaves = keccak256 K data # rest"
    by (auto split: sum.splits)
  from Cons.IH [OF rest] obtain bs
    where "map encode_utf8 docs = map Inr bs" and "rest = map (keccak256 K) bs"
    by blast
  with d leaves have "map encode_utf8 (d # docs) = map Inr (data # bs) \<and>
    leaves = map (keccak256 K) (data # bs)"
    by simp
  then show ?case by blast
qed

section \<open>UTF-8 keeps the order of strings\<close>

text \<open>
  \<^verbatim>\<open>sorted\<close> compares code points; the encodings of two strings compare byte by byte the
  same way.
\<close>

lemma differs_below_append:
  "differs_below xs ys \<Longrightarrow> xs @ us < ys @ vs"
  by (induction xs ys rule: differs_below.induct) auto

lemma byte_less: "a < 256 \<Longrightarrow> b < 256 \<Longrightarrow> (of_nat a :: byte) < of_nat b \<longleftrightarrow> a < b"
  by (simp add: word_less_nat_alt unat_of_nat)

lemma byte_eq: "a < 256 \<Longrightarrow> b < 256 \<Longrightarrow> (of_nat a :: byte) = of_nat b \<longleftrightarrow> a = b"
  by (simp add: word_of_nat_eq_iff take_bit_nat_eq_self)

lemma utf8_char_nonempty: "utf8_char c = Inr bs \<Longrightarrow> bs \<noteq> []"
  by (auto simp: utf8_char_def split: if_splits)

lemma lex2:
  fixes c d :: nat
  assumes "c < d"
  shows "c div 64 < d div 64 \<or> (c div 64 = d div 64 \<and> c mod 64 < d mod 64)"
  using assms by (metis div_mult_mod_eq less_imp_le_nat div_le_mono nat_add_left_cancel_less order_le_imp_less_or_eq)

lemma utf8_char_nats:
  assumes "utf8_char c = Inr bs"
  shows "bs = map of_nat (utf8_nats c)" and "list_all (\<lambda>n. n < 256) (utf8_nats c)"
    and "c < 0x110000"
proof -
  have "c div 4096 = c div 64 div 64" and "c div 262144 = c div 64 div 64 div 64"
    by (simp_all add: div_mult2_eq)
  with assms show "bs = map of_nat (utf8_nats c)"
    by (auto simp: utf8_char_def utf8_nats_def split: if_splits)
  from assms show "c < 0x110000"
    by (auto simp: utf8_char_def split: if_splits)
  then show "list_all (\<lambda>n. n < 256) (utf8_nats c)"
    by (auto simp: utf8_nats_def)
qed

lemma differs_below_bytes:
  "differs_below ns ms \<Longrightarrow> list_all (\<lambda>n. n < 256) ns \<Longrightarrow> list_all (\<lambda>n. n < 256) ms \<Longrightarrow>
   differs_below (map of_nat ns :: byte list) (map of_nat ms)"
  by (induction ns ms rule: differs_below.induct) (auto simp: byte_less byte_eq simp del: of_nat_add)

lemma utf8_nats_differs:
  assumes "c < d" and "d < 0x110000"
  shows "differs_below (utf8_nats c) (utf8_nats d)"
proof -
  note l1 = lex2 [OF assms(1)]
  have l2: "c div 64 div 64 < d div 64 div 64 \<or>
            (c div 64 div 64 = d div 64 div 64 \<and> c div 64 mod 64 < d div 64 mod 64)"
    if "c div 64 < d div 64"
    by (rule lex2 [OF that])
  have l3: "c div 64 div 64 div 64 < d div 64 div 64 div 64 \<or>
            (c div 64 div 64 div 64 = d div 64 div 64 div 64 \<and>
             c div 64 div 64 mod 64 < d div 64 div 64 mod 64)"
    if "c div 64 div 64 < d div 64 div 64"
    by (rule lex2 [OF that])
  consider (one) "c < 0x80" | (two) "0x80 \<le> c" "c < 0x800"
    | (three) "0x800 \<le> c" "c < 0x10000" | (four) "0x10000 \<le> c"
    by linarith
  then show ?thesis
  proof cases
    case one
    with assms show ?thesis
      by (auto simp: utf8_nats_def)
  next
    case two
    with assms l1 show ?thesis
      by (auto simp: utf8_nats_def)
  next
    case three
    with assms l1 l2 show ?thesis
      by (auto simp: utf8_nats_def)
  next
    case four
    with assms l1 l2 l3 show ?thesis
      by (auto simp: utf8_nats_def)
  qed
qed

lemma utf8_char_differs:
  assumes "c < d" and "utf8_char c = Inr bc" and "utf8_char d = Inr bd"
  shows "differs_below bc bd"
  using utf8_char_nats [OF assms(2)] utf8_char_nats [OF assms(3)]
    utf8_nats_differs [OF assms(1)] differs_below_bytes
  by blast

lemma encode_utf8_less:
  "cs < ds \<Longrightarrow> encode_utf8 cs = Inr bs \<Longrightarrow> encode_utf8 ds = Inr bs' \<Longrightarrow> bs < bs'"
proof (induction cs arbitrary: ds bs bs')
  case Nil
  then obtain d ds' where ds: "ds = d # ds'" by (cases ds) auto
  with Nil.prems obtain bd rest where "utf8_char d = Inr bd" and "bs' = bd @ rest"
    by (auto split: sum.splits)
  with utf8_char_nonempty [of d bd] Nil.prems(2) show ?case
    by (cases bd) auto
next
  case (Cons c cs)
  from Cons.prems(1) obtain d ds' where ds: "ds = d # ds'" by (cases ds) auto
  from Cons.prems(2) obtain bc r where c: "utf8_char c = Inr bc"
    and r: "encode_utf8 cs = Inr r" and bs: "bs = bc @ r"
    by (auto split: sum.splits)
  from Cons.prems(3) ds obtain bd r' where d: "utf8_char d = Inr bd"
    and r': "encode_utf8 ds' = Inr r'" and bs': "bs' = bd @ r'"
    by (auto split: sum.splits)
  from Cons.prems(1) ds consider "c < d" | "c = d" "cs < ds'"
    by auto
  then show ?case
  proof cases
    case 1
    from differs_below_append [OF utf8_char_differs [OF 1 c d]] bs bs'
    show ?thesis by simp
  next
    case 2
    from Cons.IH [OF 2(2) r r'] have "r < r'" .
    moreover from 2(1) c d have "bc = bd" by simp
    moreover have "xs @ us < xs @ vs" if "us < vs" for xs us vs :: "byte list"
      using that by (induction xs) auto
    ultimately show ?thesis using bs bs' by simp
  qed
qed

lemma encode_utf8_le:
  "cs \<le> ds \<Longrightarrow> encode_utf8 cs = Inr bs \<Longrightarrow> encode_utf8 ds = Inr bs' \<Longrightarrow> bs \<le> bs'"
  using encode_utf8_less [of cs ds bs bs'] by (cases "cs = ds") (auto simp: order_le_less)

lemma sorted_encodings:
  "sorted docs \<Longrightarrow> map encode_utf8 docs = map Inr bs \<Longrightarrow> sorted bs"
proof (induction docs arbitrary: bs)
  case Nil
  then show ?case by simp
next
  case (Cons d docs)
  from Cons.prems(2) obtain b bs' where bs: "bs = b # bs'" and b: "encode_utf8 d = Inr b"
    and rest: "map encode_utf8 docs = map Inr bs'"
    by (cases bs) auto
  have "b \<le> y" if "y \<in> set bs'" for y
  proof -
    from that have "Inr y \<in> set (map encode_utf8 docs)"
      by (simp add: rest)
    then obtain x where "x \<in> set docs" and "encode_utf8 x = Inr y"
      by auto
    with Cons.prems(1) b show ?thesis
      by (auto intro: encode_utf8_le)
  qed
  with Cons.IH [OF _ rest] Cons.prems(1) bs show ?case
    by auto
qed

section \<open>The verification function\<close>

lemma verify_with_epoch_eq:
  "verify_with_epoch K fs epoch codex_path expected_root tx_hashes =
     (case computed_root_of K fs codex_path of
        Inl e \<Rightarrow> ([], Inl e)
      | Inr computed \<Rightarrow>
          if computed = expected_root then
            (Computed_Merkle_Root computed
               # map (\<lambda>tx. Tx_Would_verify tx expected_root) tx_hashes
               @ [Lattice_Rule expected_root epoch],
             Inr True)
          else ([Computed_Merkle_Root computed, ROOT_MISMATCH], Inr False))"
  by (simp add: verify_with_epoch_def computed_root_of_def lattice_rule_def split: sum.splits)

lemma verify_with_epoch_result:
  "snd (verify_with_epoch K fs epoch codex_path expected_root tx_hashes) =
     (case computed_root_of K fs codex_path of
        Inl e \<Rightarrow> Inl e
      | Inr computed \<Rightarrow> Inr (computed = expected_root))"
  by (simp add: verify_with_epoch_eq split: sum.splits)

section \<open>The root determines the leaves\<close>

text \<open>
  The levels of the model on bytes are those of \<^verbatim>\<open>build_merkle_root\<close>, and two sequences
  of encoded documents with the same root are equal when the hasher has no collision
  on the inputs hashed for them.
\<close>

lemma length_level_inputs: "length (level_inputs ds) = (length ds + 1) div 2"
  by (induction ds rule: level_inputs.induct) simp_all

lemma next_level_hashed:
  "next_level K (map (keccak256 K) X) = Inr (map (keccak256 K) (level_inputs (map K X)))"
  by (induction X rule: level_inputs.induct) (simp_all add: fromhex_keccak256)

lemma levels_Cons: "\<exists>rest. levels K X = X # rest"
  by (simp add: levels.simps [of K X])

lemma levels_step:
  "1 < length X \<Longrightarrow> levels K X = X # levels K (level_inputs (map K X))"
  by (simp add: levels.simps [of K X])

lemma levels_top: "\<not> 1 < length X \<Longrightarrow> levels K X = [X]"
  by (simp add: levels.simps [of K X])

lemma last_levels_step:
  "1 < length X \<Longrightarrow> last (levels K X) = last (levels K (level_inputs (map K X)))"
  using levels_Cons [of K "level_inputs (map K X)"] by (auto simp: levels_step)

lemma last_levels_length: "X \<noteq> [] \<Longrightarrow> length (last (levels K X)) = 1"
proof (induction K X rule: levels.induct)
  case (1 K X)
  show ?case
  proof (cases "1 < length X")
    case True
    then have "level_inputs (map K X) \<noteq> []"
      using length_level_inputs [of "map K X"] by auto
    from "1.IH" [OF True this] True show ?thesis
      by (simp add: last_levels_step)
  next
    case False
    with "1.prems" show ?thesis
      by (cases X) (auto simp: levels_top)
  qed
qed

lemma while_loop_levels:
  "\<exists>m. while_loop K (map (keccak256 K) X) n = Inr (map (keccak256 K) (last (levels K X)), m)"
proof (induction K X arbitrary: n rule: levels.induct)
  case (1 K X)
  show ?case
  proof (cases "1 < length X")
    case True
    from "1.IH" [OF True, of "Suc n"] True show ?thesis
      by (simp add: while_loop.simps [of K "map (keccak256 K) X"] next_level_hashed
            last_levels_step)
  next
    case False
    then show ?thesis
      by (simp add: while_loop.simps [of K "map (keccak256 K) X"] levels_top)
  qed
qed

lemma root_levels:
  assumes "X \<noteq> []"
  shows "\<exists>x. last (levels K X) = [x] \<and>
             build_merkle_root K (map (keccak256 K) X) = Inr (keccak256 K x)"
proof -
  from last_levels_length [OF assms, of K] obtain x where x: "last (levels K X) = [x]"
    by (cases "last (levels K X)") auto
  from while_loop_levels [of K X 0] obtain m
    where "while_loop K (map (keccak256 K) X) 0 = Inr (map (keccak256 K) (last (levels K X)), m)"
    by blast
  with x assms show ?thesis
    by (simp add: build_merkle_root_def)
qed

lemma keccak256_inj: "keccak256 K x = keccak256 K y \<Longrightarrow> K x = K y"
  using fromhex_keccak256 [of K x] fromhex_keccak256 [of K y] by simp

lemma level_inputs_inj:
  assumes "0 < N"
  shows "\<forall>a \<in> set ds \<union> set ds'. length a = N \<Longrightarrow>
         level_inputs ds = level_inputs ds' \<Longrightarrow> ds = ds'"
proof (induction ds arbitrary: ds' rule: level_inputs.induct)
  case 1
  then show ?case by (cases ds' rule: level_inputs.cases) auto
next
  case (2 a)
  with assms show ?case by (cases ds' rule: level_inputs.cases) auto
next
  case (3 a b rest)
  show ?case
  proof (cases ds' rule: level_inputs.cases)
    case 1
    with "3.prems" show ?thesis by simp
  next
    case (2 a')
    from "3.prems"(2) have "length (a @ b) = length a'"
      unfolding 2 by simp
    moreover from "3.prems"(1) have "length a = N" and "length b = N" and "length a' = N"
      unfolding 2 by simp_all
    ultimately show ?thesis using assms by simp
  next
    case (3 a' b' rest')
    from "3.prems"(2) have "a @ b = a' @ b'" and rest: "level_inputs rest = level_inputs rest'"
      unfolding 3 by simp_all
    moreover from "3.prems"(1) have "length a = N" and "length a' = N"
      unfolding 3 by simp_all
    ultimately have "a = a'" and "b = b'" by simp_all
    moreover from "3.prems"(1) have "\<forall>a \<in> set rest \<union> set rest'. length a = N"
      unfolding 3 by simp
    from "3.IH" [OF this rest] have "rest = rest'" .
    ultimately show ?thesis using 3 by simp
  qed
qed

lemma step_inj:
  assumes "0 < N" and "inj_on K S" and "\<forall>x \<in> S. length (K x) = N"
    and "set X \<subseteq> S" and "set Z \<subseteq> S"
    and "level_inputs (map K X) = level_inputs (map K Z)"
  shows "X = Z"
proof -
  from assms(3-5) have "\<forall>a \<in> set (map K X) \<union> set (map K Z). length a = N"
    by auto
  from level_inputs_inj [OF assms(1) this assms(6)] have "map K X = map K Z" .
  moreover from assms(2,4,5) have "inj_on K (set X \<union> set Z)"
    by (auto intro: inj_on_subset)
  ultimately show ?thesis
    by (simp add: inj_on_map_eq_map)
qed

lemma levels_mem:
  "W \<in> set (levels K V) \<Longrightarrow>
   W = V \<or> (\<exists>Z \<in> set (levels K V). 1 < length Z \<and> W = level_inputs (map K Z))"
proof (induction K V rule: levels.induct)
  case (1 K V)
  show ?case
  proof (cases "1 < length V")
    case False
    with "1.prems" show ?thesis by (simp add: levels_top)
  next
    case True
    let ?V' = "level_inputs (map K V)"
    from True have unfold: "levels K V = V # levels K ?V'"
      by (rule levels_step)
    show ?thesis
    proof (cases "W = V")
      case False
      with "1.prems" unfold have "W \<in> set (levels K ?V')" by simp
      from "1.IH" [OF True this] consider "W = ?V'"
        | Z where "Z \<in> set (levels K ?V')" "1 < length Z" "W = level_inputs (map K Z)"
        by blast
      then show ?thesis
      proof cases
        case 1
        with True unfold show ?thesis by auto
      next
        case 2
        with unfold show ?thesis by auto
      qed
    qed simp
  qed
qed

lemma same_top_same_tree:
  "0 < N \<Longrightarrow> inj_on K S \<Longrightarrow> \<forall>x \<in> S. length (K x) = N \<Longrightarrow>
   \<forall>Z \<in> set (levels K X) \<union> set (levels K Y). set Z \<subseteq> S \<Longrightarrow>
   last (levels K X) = last (levels K Y) \<Longrightarrow>
   X \<in> set (levels K Y) \<or> Y \<in> set (levels K X)"
proof (induction K X arbitrary: Y rule: levels.induct)
  case (1 K X)
  note inj = step_inj [OF "1.prems"(1) "1.prems"(2) "1.prems"(3)]
  have nonempty: "levels K V \<noteq> []" for V
    using levels_Cons [of K V] by auto
  show ?case
  proof (cases "1 < length X")
    case False
    then have "last (levels K X) = X" by (simp add: levels_top)
    with "1.prems"(5) have "X = last (levels K Y)" by simp
    then show ?thesis using last_in_set [OF nonempty [of Y]] by simp
  next
    case moreX: True
    show ?thesis
    proof (cases "1 < length Y")
      case False
      then have "last (levels K Y) = Y" by (simp add: levels_top)
      with "1.prems"(5) have "Y = last (levels K X)" by simp
      then show ?thesis using last_in_set [OF nonempty [of X]] by simp
    next
      case moreY: True
      let ?X' = "level_inputs (map K X)" and ?Y' = "level_inputs (map K Y)"
      have uX: "levels K X = X # levels K ?X'" and uY: "levels K Y = Y # levels K ?Y'"
        using moreX moreY by (simp_all add: levels_step)
      have sub: "\<forall>Z \<in> set (levels K ?X') \<union> set (levels K ?Y'). set Z \<subseteq> S"
        using "1.prems"(4) uX uY by simp
      have top: "last (levels K ?X') = last (levels K ?Y')"
        using "1.prems"(5) moreX moreY by (simp add: last_levels_step)
      have XS: "set X \<subseteq> S" and YS: "set Y \<subseteq> S"
        using "1.prems"(4) uX uY by simp_all
      from "1.IH" [OF moreX "1.prems"(1) "1.prems"(2) "1.prems"(3) sub top]
      consider (left) "?X' \<in> set (levels K ?Y')" | (right) "?Y' \<in> set (levels K ?X')"
        by blast
      then show ?thesis
      proof cases
        case left
        from levels_mem [OF left] consider "?X' = ?Y'"
          | Z where "Z \<in> set (levels K ?Y')" "1 < length Z" "?X' = level_inputs (map K Z)"
          by blast
        then show ?thesis
        proof cases
          case 1
          from inj [OF XS YS 1] uY show ?thesis by simp
        next
          case 2
          from 2(1) sub have "set Z \<subseteq> S" by simp
          from inj [OF XS this 2(3)] 2(1) uY show ?thesis by simp
        qed
      next
        case right
        from levels_mem [OF right] consider "?Y' = ?X'"
          | Z where "Z \<in> set (levels K ?X')" "1 < length Z" "?Y' = level_inputs (map K Z)"
          by blast
        then show ?thesis
        proof cases
          case 1
          from inj [OF YS XS 1] uX show ?thesis by simp
        next
          case 2
          from 2(1) sub have "set Z \<subseteq> S" by simp
          from inj [OF YS this 2(3)] 2(1) uX show ?thesis by simp
        qed
      qed
    qed
  qed
qed

lemma level_of_other_tree:
  assumes "X \<in> set (levels K Y)" and "X \<noteq> []" and "set X \<inter> set (node_inputs K Y) = {}"
  shows "X = Y"
proof (rule ccontr)
  assume differ: "X \<noteq> Y"
  from levels_Cons [of K Y] obtain rest where rest: "levels K Y = Y # rest"
    by blast
  with assms(1) differ have "X \<in> set rest" by simp
  then have "set X \<subseteq> set (node_inputs K Y)"
    by (auto simp: node_inputs_def rest)
  with assms(2,3) show False
    by (cases X) auto
qed

lemma root_injective:
  assumes free: "collision_free K N X Y"
    and same: "build_merkle_root K (map (keccak256 K) X) = build_merkle_root K (map (keccak256 K) Y)"
  shows "X = Y"
proof (cases "X = [] \<or> Y = []")
  case True
  show ?thesis
  proof (rule ccontr)
    assume "X \<noteq> Y"
    with True consider "X = []" "Y \<noteq> []" | "Y = []" "X \<noteq> []"
      by auto
    then show False
    proof cases
      case 1
      from root_levels [OF 1(2), of K] same 1(1) show False
        by (auto simp: build_merkle_root_def)
    next
      case 2
      from root_levels [OF 2(2), of K] same 2(1) show False
        by (auto simp: build_merkle_root_def)
    qed
  qed
next
  case False
  then have X: "X \<noteq> []" and Y: "Y \<noteq> []" by simp_all
  let ?S = "set (hashed_inputs K X) \<union> set (hashed_inputs K Y)"
  from free have N: "0 < N" and inj: "inj_on K ?S" and len: "\<forall>x \<in> ?S. length (K x) = N"
    and XY: "set X \<inter> set (node_inputs K Y) = {}" and YX: "set Y \<inter> set (node_inputs K X) = {}"
    by (simp_all add: collision_free_def)
  have inside: "\<forall>Z \<in> set (levels K X) \<union> set (levels K Y). set Z \<subseteq> ?S"
    by (auto simp: hashed_inputs_def)
  have nonempty: "levels K V \<noteq> []" for V
    using levels_Cons [of K V] by auto
  from root_levels [OF X, of K] obtain x where x: "last (levels K X) = [x]"
    and rx: "build_merkle_root K (map (keccak256 K) X) = Inr (keccak256 K x)"
    by blast
  from root_levels [OF Y, of K] obtain y where y: "last (levels K Y) = [y]"
    and ry: "build_merkle_root K (map (keccak256 K) Y) = Inr (keccak256 K y)"
    by blast
  from same rx ry have "keccak256 K x = keccak256 K y"
    by simp
  then have "K x = K y"
    by (rule keccak256_inj)
  moreover have "[x] \<in> set (levels K X)" and "[y] \<in> set (levels K Y)"
    using last_in_set [OF nonempty [of X]] last_in_set [OF nonempty [of Y]] x y by simp_all
  then have "x \<in> ?S" and "y \<in> ?S"
    by (force simp: hashed_inputs_def)+
  ultimately have "x = y"
    using inj by (simp add: inj_on_def)
  with x y have "last (levels K X) = last (levels K Y)"
    by simp
  from same_top_same_tree [OF N inj len inside this]
  show ?thesis
    using level_of_other_tree [OF _ X XY] level_of_other_tree [OF _ Y YX] by auto
qed

lemma encode_utf8_inj:
  assumes "encode_utf8 cs = Inr b" and "encode_utf8 ds = Inr b"
  shows "cs = ds"
proof (rule ccontr)
  assume "cs \<noteq> ds"
  then consider "cs < ds" | "ds < cs" by fastforce
  then show False
  proof cases
    case 1
    from encode_utf8_less [OF 1 assms] show False by simp
  next
    case 2
    from encode_utf8_less [OF 2 assms(2) assms(1)] show False by simp
  qed
qed

lemma encodings_inj:
  "map encode_utf8 xs = map Inr E \<Longrightarrow> map encode_utf8 ys = map Inr E \<Longrightarrow> xs = ys"
proof (induction xs arbitrary: ys E)
  case Nil
  then show ?case by auto
next
  case (Cons x xs)
  from Cons.prems(1) obtain e E' where E: "E = e # E'" and x: "encode_utf8 x = Inr e"
    and xs: "map encode_utf8 xs = map Inr E'"
    by (cases E) auto
  from Cons.prems(2) E obtain y ys' where ys: "ys = y # ys'" and y: "encode_utf8 y = Inr e"
    and ys': "map encode_utf8 ys' = map Inr E'"
    by (cases ys) auto
  from encode_utf8_inj [OF x y] Cons.IH [OF xs ys'] ys show ?case
    by simp
qed

lemma hash_docs_encodings:
  "map encode_utf8 docs = map Inr E \<Longrightarrow> hash_docs K docs = Inr (map (keccak256 K) E)"
  by (induction docs arbitrary: E) auto

lemma root_of_documents_injective:
  assumes "map encode_utf8 (sort docs) = map Inr X"
    and "map encode_utf8 (sort docs') = map Inr Y"
    and "collision_free K N X Y"
    and "build_merkle_leaves K docs = Inr leaves"
    and "build_merkle_leaves K docs' = Inr leaves'"
    and "build_merkle_root K leaves = build_merkle_root K leaves'"
  shows "mset docs = mset docs'"
proof -
  from assms(1,4) have "leaves = map (keccak256 K) X"
    by (simp add: build_merkle_leaves_def hash_docs_encodings)
  moreover from assms(2,5) have "leaves' = map (keccak256 K) Y"
    by (simp add: build_merkle_leaves_def hash_docs_encodings)
  ultimately have "X = Y"
    using root_injective [OF assms(3)] assms(6) by simp
  with assms(1,2) have "sort docs = sort docs'"
    by (auto intro: encodings_inj)
  then have "mset (sort docs) = mset (sort docs')"
    by simp
  then show ?thesis
    by simp
qed

section \<open>Single leaf\<close>

text \<open>
  C8. For every leaf \<open>x\<close>, whatever string it is, \<^verbatim>\<open>build_merkle_root([x])\<close> returns \<open>x\<close>
  itself, and the loop makes no round.
\<close>

theorem single_leaf_identity:
  "build_merkle_root K [x] = Inr x \<and> while_loop K [x] 0 = Inr ([x], 0)"
  by (simp add: build_merkle_root_def while_loop.simps)

section \<open>Pairs\<close>

text \<open>
  C6. In a level that \<^verbatim>\<open>build_merkle_root\<close> reduces, the elements at \<open>2i\<close> and \<open>2i+1\<close>
  give element \<open>i\<close> of the next level: the hash of the bytes the left one decodes to
  followed by the bytes the right one decodes to (the decoded digests, not their hex
  text). For exactly two leaves the root is that hash.
\<close>

theorem pair_hashes_raw_bytes:
  "(\<forall>nl i. next_level K current = Inr nl \<longrightarrow> 2 * i + 1 < length current \<longrightarrow>
      (\<exists>lb rb. fromhex (drop 2 (current ! (2 * i))) = Inr lb \<and>
               fromhex (drop 2 (current ! (2 * i + 1))) = Inr rb \<and>
               nl ! i = keccak256 K (lb @ rb))) \<and>
   (\<forall>lb rb. fromhex (drop 2 l1) = Inr lb \<longrightarrow> fromhex (drop 2 l2) = Inr rb \<longrightarrow>
      build_merkle_root K [l1, l2] = Inr (keccak256 K (lb @ rb)))"
  using next_level_nth [of K current] two_leaves_root [of l1 _ l2 _ K] by blast

theorem pair_hashes_raw_bytes_witness:
  "next_level sample_hasher [str ''0x0a'', str ''0x0b'', str ''0x0c'', str ''0x0d'']
     = Inr [keccak256 sample_hasher [0x0a, 0x0b], keccak256 sample_hasher [0x0c, 0x0d]] \<and>
   2 * 1 + 1 < length [str ''0x0a'', str ''0x0b'', str ''0x0c'', str ''0x0d''] \<and>
   (\<exists>lb rb.
      fromhex (drop 2 ([str ''0x0a'', str ''0x0b'', str ''0x0c'', str ''0x0d''] ! (2 * 1))) = Inr lb \<and>
      fromhex (drop 2 ([str ''0x0a'', str ''0x0b'', str ''0x0c'', str ''0x0d''] ! (2 * 1 + 1))) = Inr rb \<and>
      [keccak256 sample_hasher [0x0a, 0x0b], keccak256 sample_hasher [0x0c, 0x0d]] ! 1
        = keccak256 sample_hasher (lb @ rb)) \<and>
   fromhex (drop 2 (str ''0x0a'')) = Inr [0x0a] \<and>
   fromhex (drop 2 (str ''0x0b'')) = Inr [0x0b] \<and>
   build_merkle_root sample_hasher [str ''0x0a'', str ''0x0b'']
     = Inr (keccak256 sample_hasher ([0x0a] @ [0x0b]))"
proof -
  let ?cur = "[str ''0x0a'', str ''0x0b'', str ''0x0c'', str ''0x0d'']"
  let ?nl = "[keccak256 sample_hasher [0x0a, 0x0b], keccak256 sample_hasher [0x0c, 0x0d]]"
  have a: "fromhex (drop 2 (str ''0x0a'')) = Inr [0x0a]"
    and b: "fromhex (drop 2 (str ''0x0b'')) = Inr [0x0b]"
    and c: "fromhex (drop 2 (str ''0x0c'')) = Inr [0x0c]"
    and d: "fromhex (drop 2 (str ''0x0d'')) = Inr [0x0d]"
    by (simp_all add: str_def hexval_def ascii_isspace_def)
  have level: "next_level sample_hasher ?cur = Inr ?nl"
    by (simp add: a b c d)
  have index: "2 * 1 + 1 < length ?cur"
    by simp
  note inst = pair_hashes_raw_bytes [of sample_hasher ?cur "str ''0x0a''" "str ''0x0b''"]
  from inst level index
  have "\<exists>lb rb. fromhex (drop 2 (?cur ! (2 * 1))) = Inr lb \<and>
                fromhex (drop 2 (?cur ! (2 * 1 + 1))) = Inr rb \<and>
                ?nl ! 1 = keccak256 sample_hasher (lb @ rb)"
    by blast
  moreover from inst a b
  have "build_merkle_root sample_hasher [str ''0x0a'', str ''0x0b'']
          = Inr (keccak256 sample_hasher ([0x0a] @ [0x0b]))"
    by blast
  ultimately show ?thesis
    using level index a b by blast
qed

section \<open>The odd element\<close>

text \<open>
  C1, as the code has it. The last element of a level of odd length goes to the next
  level as the hash of the bytes it decodes to, taken once: \<^verbatim>\<open>combined = left\<close>. The
  root of three leaves \<open>[a, b, c]\<close> is the hash of the digest of \<open>a || b\<close> followed by the
  digest of \<open>c\<close> alone, not of \<open>c || c\<close>.
\<close>

theorem odd_element_hashed_alone:
  "(\<forall>nl. next_level K current = Inr nl \<longrightarrow> odd (length current) \<longrightarrow>
      (\<exists>b. fromhex (drop 2 (last current)) = Inr b \<and> last nl = keccak256 K b)) \<and>
   (\<forall>ab bb cb. fromhex (drop 2 a) = Inr ab \<longrightarrow> fromhex (drop 2 b) = Inr bb \<longrightarrow>
      fromhex (drop 2 c) = Inr cb \<longrightarrow>
      build_merkle_root K [a, b, c] = Inr (keccak256 K (K (ab @ bb) @ K cb)))"
  using next_level_last_odd [of K current] three_leaves_root [of a _ b _ c _ K] by blast

theorem odd_element_hashed_alone_witness:
  "fromhex (drop 2 (str ''0x0a'')) = Inr [0x0a] \<and>
   fromhex (drop 2 (str ''0x0b'')) = Inr [0x0b] \<and>
   fromhex (drop 2 (str ''0x0c'')) = Inr [0x0c] \<and>
   build_merkle_root sample_hasher [str ''0x0a'', str ''0x0b'', str ''0x0c'']
     = Inr (keccak256 sample_hasher (sample_hasher ([0x0a] @ [0x0b]) @ sample_hasher [0x0c])) \<and>
   keccak256 sample_hasher (sample_hasher ([0x0a] @ [0x0b]) @ sample_hasher [0x0c])
     = str ''0xababababababababababababababababababababababababababababababab8b'' \<and>
   keccak256 sample_hasher (sample_hasher ([0x0a] @ [0x0b]) @ sample_hasher ([0x0c] @ [0x0c]))
     = str ''0xababababababababababababababababababababababababababababababab97''"
proof -
  have a: "fromhex (drop 2 (str ''0x0a'')) = Inr [0x0a]"
    and b: "fromhex (drop 2 (str ''0x0b'')) = Inr [0x0b]"
    and c: "fromhex (drop 2 (str ''0x0c'')) = Inr [0x0c]"
    by (simp_all add: str_def hexval_def ascii_isspace_def)
  from odd_element_hashed_alone
         [of sample_hasher "[]" "str ''0x0a''" "str ''0x0b''" "str ''0x0c''"] a b c
  have "build_merkle_root sample_hasher [str ''0x0a'', str ''0x0b'', str ''0x0c'']
          = Inr (keccak256 sample_hasher
                  (sample_hasher ([0x0a] @ [0x0b]) @ sample_hasher [0x0c]))"
    by blast
  moreover
  have "keccak256 sample_hasher (sample_hasher ([0x0a] @ [0x0b]) @ sample_hasher [0x0c])
          = str ''0xababababababababababababababababababababababababababababababab8b''"
    by (simp add: sample_hasher_eq keccak256_def hex_def hex_byte_def hexdigit_def str_def)
  moreover
  have "keccak256 sample_hasher
          (sample_hasher ([0x0a] @ [0x0b]) @ sample_hasher ([0x0c] @ [0x0c]))
          = str ''0xababababababababababababababababababababababababababababababab97''"
    by (simp add: sample_hasher_eq keccak256_def hex_def hex_byte_def hexdigit_def str_def)
  ultimately show ?thesis
    using a b c by blast
qed

section \<open>Rounds\<close>



section \<open>Empty input\<close>

text \<open>
  C2, as the code has it. \<^verbatim>\<open>build_merkle_root([])\<close> raises \<^verbatim>\<open>ValueError("No leaves")\<close>.
  \<^verbatim>\<open>build_merkle_leaves([])\<close> raises nothing: it returns the empty list, and it is the
  composition of the two that fails on an empty document sequence.
\<close>

theorem empty_input_rejected_by_root:
  "build_merkle_root K [] = Inl (ValueError ''No leaves'') \<and>
   build_merkle_leaves K [] = Inr [] \<and>
   (case build_merkle_leaves K [] of
      Inl e \<Rightarrow> Inl e
    | Inr leaves \<Rightarrow> build_merkle_root K leaves) = Inl (ValueError ''No leaves'')"
  by (simp add: build_merkle_root_def build_merkle_leaves_def)

theorem empty_leaves_counterexample:
  "build_merkle_leaves sample_hasher [] = Inr []"
  by (simp add: build_merkle_leaves_def)

section \<open>Order of the documents\<close>

text \<open>
  C5. Two document sequences with the same documents, each as often in one as in the
  other, give the same leaves (or the same exception) and the same root. The leaves
  are the hashes of the documents' UTF-8 encodings, taken in ascending byte-wise
  lexicographic order of the encodings.
\<close>

theorem leaves_permutation_invariant:
  assumes "mset docs = mset docs'"
  shows "build_merkle_leaves K docs = build_merkle_leaves K docs' \<and>
         (case build_merkle_leaves K docs of
            Inl e \<Rightarrow> Inl e
          | Inr leaves \<Rightarrow> build_merkle_root K leaves) =
         (case build_merkle_leaves K docs' of
            Inl e \<Rightarrow> Inl e
          | Inr leaves \<Rightarrow> build_merkle_root K leaves) \<and>
         (\<forall>leaves. build_merkle_leaves K docs = Inr leaves \<longrightarrow>
            (\<exists>bs. sorted bs \<and> mset (map Inr bs) = mset (map encode_utf8 docs) \<and>
                  leaves = map (keccak256 K) bs))"
proof -
  have same: "build_merkle_leaves K docs = build_merkle_leaves K docs'"
    using sort_mset_cong [OF assms] by (simp add: build_merkle_leaves_def)
  have "\<exists>bs. sorted bs \<and> mset (map Inr bs) = mset (map encode_utf8 docs) \<and>
             leaves = map (keccak256 K) bs"
    if "build_merkle_leaves K docs = Inr leaves" for leaves
  proof -
    from that hash_docs_Inr [of K "sort docs" leaves]
    obtain bs where enc: "map encode_utf8 (sort docs) = map Inr bs"
      and leaves: "leaves = map (keccak256 K) bs"
      by (auto simp: build_merkle_leaves_def)
    have "sorted bs"
      by (rule sorted_encodings [OF _ enc]) simp
    moreover have "mset (map Inr bs) = mset (map encode_utf8 docs)"
      by (simp flip: enc)
    ultimately show ?thesis
      using leaves by blast
  qed
  with same show ?thesis
    by simp
qed

theorem leaves_permutation_invariant_witness:
  "mset [str ''B'', str ''A''] = mset [str ''A'', str ''B''] \<and>
   build_merkle_leaves sample_hasher [str ''B'', str ''A'']
     = build_merkle_leaves sample_hasher [str ''A'', str ''B''] \<and>
   build_merkle_leaves sample_hasher [str ''B'', str ''A'']
     = Inr [keccak256 sample_hasher [0x41], keccak256 sample_hasher [0x42]] \<and>
   (\<exists>bs. sorted bs \<and>
         mset (map Inr bs) = mset (map encode_utf8 [str ''B'', str ''A'']) \<and>
         [keccak256 sample_hasher [0x41], keccak256 sample_hasher [0x42]]
           = map (keccak256 sample_hasher) bs)"
proof -
  have perm: "mset [str ''B'', str ''A''] = mset [str ''A'', str ''B'']"
    by simp
  have val: "build_merkle_leaves sample_hasher [str ''B'', str ''A'']
               = Inr [keccak256 sample_hasher [0x41], keccak256 sample_hasher [0x42]]"
    by (simp add: build_merkle_leaves_def str_def utf8_char_def)
  from leaves_permutation_invariant [OF perm, of sample_hasher] val perm
  show ?thesis by blast
qed

section \<open>One leaf for each document\<close>

text \<open>
  C10. The leaves \<^verbatim>\<open>build_merkle_leaves\<close> returns are as many as the documents, and a
  document that occurs \<open>k\<close> times gives its leaf at least \<open>k\<close> times: nothing is
  removed as a duplicate. So repeating a document changes the root: any sequence in
  which some document occurs another number of times has another root, as long as
  the hasher has no collision among the inputs hashed for the two sequences.
\<close>

theorem one_leaf_per_document:
  assumes "build_merkle_leaves K docs = Inr leaves"
  shows "length leaves = length docs \<and>
         (\<forall>d data. encode_utf8 d = Inr data \<longrightarrow>
            count_list docs d \<le> count_list leaves (keccak256 K data)) \<and>
         (\<forall>docs' leaves' X Y N.
            build_merkle_leaves K docs' = Inr leaves' \<longrightarrow>
            map encode_utf8 (sort docs) = map Inr X \<longrightarrow>
            map encode_utf8 (sort docs') = map Inr Y \<longrightarrow>
            collision_free K N X Y \<longrightarrow>
            mset docs' \<noteq> mset docs \<longrightarrow>
            build_merkle_root K leaves' \<noteq> build_merkle_root K leaves)"
proof -
  from assms have hashed: "hash_docs K (sort docs) = Inr leaves"
    by (simp add: build_merkle_leaves_def)
  have "count_list (sort docs) d = count_list docs d" for d
    by (simp flip: count_mset)
  with hash_docs_length [OF hashed] hash_docs_count [OF hashed]
  have "length leaves = length docs \<and>
        (\<forall>d data. encode_utf8 d = Inr data \<longrightarrow>
           count_list docs d \<le> count_list leaves (keccak256 K data))"
    by (metis length_sort)
  moreover have "build_merkle_root K leaves' \<noteq> build_merkle_root K leaves"
    if "build_merkle_leaves K docs' = Inr leaves'"
      and "map encode_utf8 (sort docs) = map Inr X"
      and "map encode_utf8 (sort docs') = map Inr Y"
      and "collision_free K N X Y"
      and "mset docs' \<noteq> mset docs"
    for docs' leaves' X Y N
    using root_of_documents_injective [OF that(2) that(3) that(4) assms that(1)] that(5)
    by auto
  ultimately show ?thesis
    by blast
qed

theorem one_leaf_per_document_witness:
  "build_merkle_leaves sample_hasher [str ''A'', str ''A'']
     = Inr [keccak256 sample_hasher [0x41], keccak256 sample_hasher [0x41]] \<and>
   encode_utf8 (str ''A'') = Inr [0x41] \<and>
   length [keccak256 sample_hasher [0x41], keccak256 sample_hasher [0x41]]
     = length [str ''A'', str ''A''] \<and>
   count_list [str ''A'', str ''A''] (str ''A'')
     \<le> count_list [keccak256 sample_hasher [0x41], keccak256 sample_hasher [0x41]]
          (keccak256 sample_hasher [0x41]) \<and>
   count_list [str ''A'', str ''A''] (str ''A'') = 2 \<and>
   build_merkle_leaves sample_hasher [str ''A''] = Inr [keccak256 sample_hasher [0x41]] \<and>
   map encode_utf8 (sort [str ''A'', str ''A'']) = map Inr [[0x41], [0x41]] \<and>
   map encode_utf8 (sort [str ''A'']) = map Inr [[0x41]] \<and>
   collision_free sample_hasher 32 [[0x41], [0x41]] [[0x41]] \<and>
   mset [str ''A''] \<noteq> mset [str ''A'', str ''A''] \<and>
   build_merkle_root sample_hasher [keccak256 sample_hasher [0x41]]
     \<noteq> build_merkle_root sample_hasher
         [keccak256 sample_hasher [0x41], keccak256 sample_hasher [0x41]]"
proof -
  have val: "build_merkle_leaves sample_hasher [str ''A'', str ''A'']
               = Inr [keccak256 sample_hasher [0x41], keccak256 sample_hasher [0x41]]"
    by (simp add: build_merkle_leaves_def str_def utf8_char_def)
  have enc: "encode_utf8 (str ''A'') = Inr [0x41]"
    by (simp add: str_def utf8_char_def)
  have two: "count_list [str ''A'', str ''A''] (str ''A'') = 2"
    by simp
  have val': "build_merkle_leaves sample_hasher [str ''A''] = Inr [keccak256 sample_hasher [0x41]]"
    by (simp add: build_merkle_leaves_def str_def utf8_char_def)
  have X: "map encode_utf8 (sort [str ''A'', str ''A'']) = map Inr [[0x41], [0x41]]"
    by (simp add: str_def utf8_char_def)
  have Y: "map encode_utf8 (sort [str ''A'']) = map Inr [[0x41]]"
    by (simp add: str_def utf8_char_def)
  have free: "collision_free sample_hasher 32 [[0x41], [0x41]] [[0x41]]"
    by (simp add: collision_free_def hashed_inputs_def node_inputs_def levels.simps
          sample_hasher_eq)
  have other: "mset [str ''A''] \<noteq> mset [str ''A'', str ''A'']"
    by simp
  note inst = one_leaf_per_document [OF val]
  from inst have len: "length [keccak256 sample_hasher [0x41], keccak256 sample_hasher [0x41]]
                         = length [str ''A'', str ''A'']"
    by (rule conjunct1)
  from inst enc
  have cnt: "count_list [str ''A'', str ''A''] (str ''A'')
               \<le> count_list [keccak256 sample_hasher [0x41], keccak256 sample_hasher [0x41]]
                    (keccak256 sample_hasher [0x41])"
    by blast
  from inst
  have "\<forall>docs' leaves' X Y N.
          build_merkle_leaves sample_hasher docs' = Inr leaves' \<longrightarrow>
          map encode_utf8 (sort [str ''A'', str ''A'']) = map Inr X \<longrightarrow>
          map encode_utf8 (sort docs') = map Inr Y \<longrightarrow>
          collision_free sample_hasher N X Y \<longrightarrow>
          mset docs' \<noteq> mset [str ''A'', str ''A''] \<longrightarrow>
          build_merkle_root sample_hasher leaves'
            \<noteq> build_merkle_root sample_hasher
                [keccak256 sample_hasher [0x41], keccak256 sample_hasher [0x41]]"
    by (rule conjunct2 [THEN conjunct2])
  from this [rule_format, OF val' X Y free other]
  have roots: "build_merkle_root sample_hasher [keccak256 sample_hasher [0x41]]
                 \<noteq> build_merkle_root sample_hasher
                     [keccak256 sample_hasher [0x41], keccak256 sample_hasher [0x41]]" .
  from val enc len cnt two val' X Y free other roots
  show ?thesis by simp
qed

section \<open>Comparison with the expected root\<close>

text \<open>
  C3, as the code has it. \<^verbatim>\<open>computed_root != expected_root\<close> compares two strings
  character by character; nothing folds case or adds or removes \<^verbatim>\<open>0x\<close>. The outcome is
  true exactly when \<^verbatim>\<open>expected_root\<close> is the string computed (lowercase hex after
  \<^verbatim>\<open>0x\<close>), so two expected values give the same outcome exactly when both are that
  string or neither is.
\<close>

theorem expected_root_compared_exactly:
  assumes "computed_root_of K fs codex_path = Inr computed"
  shows "snd (verify_against_txs K fs codex_path expected_root tx_hashes)
           = Inr (expected_root = computed) \<and>
         (snd (verify_against_txs K fs codex_path expected_root tx_hashes)
            = snd (verify_against_txs K fs codex_path expected_root' tx_hashes))
           = ((expected_root = computed) = (expected_root' = computed))"
  using assms by (auto simp: verify_against_txs_def verify_with_epoch_result)

theorem expected_root_compared_exactly_witness:
  "computed_root_of sample_hasher sample_files (str ''codex.txt'')
     = Inr (str ''0xababababababababababababababababababababababababababababababab72'') \<and>
   snd (verify_against_txs sample_hasher sample_files (str ''codex.txt'')
          (str ''0xababababababababababababababababababababababababababababababab72'') [str ''0xce90'']) = Inr True \<and>
   snd (verify_against_txs sample_hasher sample_files (str ''codex.txt'')
          (str ''0xababababababababababababababababababababababababababababababab73'') [str ''0xce90'']) = Inr False"
proof -
  have computed: "computed_root_of sample_hasher sample_files (str ''codex.txt'')
                    = Inr (str ''0xababababababababababababababababababababababababababababababab72'')"
    by (simp add: ev)
  have differ: "str ''0xababababababababababababababababababababababababababababababab73'' \<noteq> str ''0xababababababababababababababababababababababababababababababab72''"
    by (simp add: str_def)
  from expected_root_compared_exactly [OF computed, of "str ''0xababababababababababababababababababababababababababababababab72''" "[str ''0xce90'']"]
    expected_root_compared_exactly [OF computed, of "str ''0xababababababababababababababababababababababababababababababab73''" "[str ''0xce90'']"]
    computed differ
  show ?thesis by simp
qed

theorem case_insensitive_counterexample:
  "snd (verify_against_txs sample_hasher sample_files (str ''codex.txt'')
          (str ''0xababababababababababababababababababababababababababababababab72'') []) = Inr True \<and>
   snd (verify_against_txs sample_hasher sample_files (str ''codex.txt'')
          (str ''0xABABABABABABABABABABABABABABABABABABABABABABABABABABABABABABAB72'') []) = Inr False \<and>
   snd (verify_against_txs sample_hasher sample_files (str ''codex.txt'')
          (str ''ababababababababababababababababababababababababababababababab72'') []) = Inr False"
proof -
  have computed: "computed_root_of sample_hasher sample_files (str ''codex.txt'')
                    = Inr (str ''0xababababababababababababababababababababababababababababababab72'')"
    by (simp add: ev)
  have "str ''0xABABABABABABABABABABABABABABABABABABABABABABABABABABABABABABAB72'' \<noteq> str ''0xababababababababababababababababababababababababababababababab72''"
    and "str ''ababababababababababababababababababababababababababababababab72'' \<noteq> str ''0xababababababababababababababababababababababababababababababab72''"
    by (simp_all add: str_def)
  with computed show ?thesis
    by (simp add: verify_against_txs_def verify_with_epoch_result)
qed

section \<open>Attestation\<close>

text \<open>
  C4. The attestation is true exactly when the computed root equals the expected one,
  for every value of the epoch: the rule returns false whatever the epoch when the
  roots differ, and true with the epoch unchanged in the line it prints when they are
  equal. The result of the whole function does not depend on the epoch.
\<close>

theorem attestation_iff_match:
  "snd (lattice_rule epoch computed expected_root) = (computed = expected_root) \<and>
   fst (lattice_rule epoch computed expected_root)
     = (if computed = expected_root then [Lattice_Rule expected_root epoch] else []) \<and>
   snd (verify_with_epoch K fs epoch codex_path expected_root tx_hashes)
     = (case computed_root_of K fs codex_path of
          Inl e \<Rightarrow> Inl e
        | Inr r \<Rightarrow> Inr (r = expected_root)) \<and>
   snd (verify_with_epoch K fs epoch codex_path expected_root tx_hashes)
     = snd (verify_with_epoch K fs epoch' codex_path expected_root tx_hashes)"
  by (simp add: lattice_rule_def verify_with_epoch_result)

section \<open>The transaction list\<close>

text \<open>
  C7. The result of \<^verbatim>\<open>verify_against_txs\<close> (the boolean, or the exception) is the same
  for any two lists of transaction hashes, the empty list among them; the list only
  adds printed lines.
\<close>

theorem result_independent_of_txs:
  "snd (verify_against_txs K fs codex_path expected_root tx_hashes)
     = snd (verify_against_txs K fs codex_path expected_root tx_hashes') \<and>
   snd (verify_against_txs K fs codex_path expected_root tx_hashes)
     = snd (verify_against_txs K fs codex_path expected_root [])"
  by (simp add: verify_against_txs_def verify_with_epoch_result)

end
